theory Spec2Isabelle
  imports Main
begin

section \<open>Handlers, continuations and panics\<close>

text \<open>
  A Go handler is arbitrary code that receives the response writer, the request and a
  continuation \<open>next\<close>. Everything such code can read or write (the response, the
  request, whatever else it touches) is one value of the state type \<open>'s\<close>. A panic is a
  value: an outcome is either \<open>Inl (e, s)\<close>, a panic \<open>e\<close> raised in state \<open>s\<close>, or
  \<open>Inr s\<close>, a normal return in state \<open>s\<close>.
\<close>

datatype error = NilDereference | HandlerCannotBeNil | HandlerPanic

type_synonym 's outcome = "(error \<times> 's) + 's"

text \<open>
  What a handler does on one invocation, as seen by the chain: it returns, it panics, or
  it calls \<open>next\<close> in some state and goes on from the outcome of that call (which it
  may have recovered from, when the call panicked). Calling \<open>next\<close> several times is a
  \<open>CallNext\<close> inside the resumption of another. A behaviour is a well-founded tree:
  the handler's own code ends, whatever the continuation does. A handler that keeps
  \<open>next\<close> to call it after it has returned, or from another goroutine, is outside this
  model.
\<close>

datatype 's beh =
    Return 's
  | Raise error 's
  | CallNext 's "'s outcome \<Rightarrow> 's beh"

text \<open>The interface type \<open>Handler\<close>: the nil interface value, or an implementation.\<close>

datatype 's Handler = NilHandler | Impl "'s \<Rightarrow> 's beh"

text \<open>
  \<open>HandlerFunc(f)\<close> converts a function value into a \<open>Handler\<close>; its \<open>ServeHTTP\<close> calls
  \<open>f\<close>. A nil function value (\<open>None\<close>) gives a non-nil interface whose call panics.
\<close>

fun HandlerFunc :: "('s \<Rightarrow> 's beh) option \<Rightarrow> 's Handler" where
  "HandlerFunc None = Impl (\<lambda>s. Raise NilDereference s)"
| "HandlerFunc (Some f) = Impl f"

text \<open>Running a behaviour against the continuation \<open>k\<close> it was passed.\<close>

primrec run :: "'s beh \<Rightarrow> ('s \<Rightarrow> 's outcome) \<Rightarrow> 's outcome" where
  "run (Return s) k = Inr s"
| "run (Raise e s) k = Inl (e, s)"
| "run (CallNext s c) k = run (c (k s)) k"

section \<open>The chain\<close>

text \<open>
  \<open>type middleware struct { handler Handler; next *middleware }\<close>. The pointer is
  \<open>None\<close> when nil. Nodes are never written after \<open>build\<close> made them, so a node is a
  value.
\<close>

datatype 's middleware = Middleware (handler: "'s Handler") (nxt: "'s middleware option")

text \<open>
  \<open>m.handler.ServeHTTP(rw, r, m.next.ServeHTTP)\<close>: the method value \<open>m.next.ServeHTTP\<close>
  dereferences \<open>m.next\<close>, and the call goes through the interface \<open>m.handler\<close>; either
  being nil is a run-time panic.
\<close>

primrec middleware_ServeHTTP :: "'s middleware \<Rightarrow> 's \<Rightarrow> 's outcome" where
  "middleware_ServeHTTP (Middleware h n) =
     (\<lambda>s. case map_option middleware_ServeHTTP n of
             None \<Rightarrow> Inl (NilDereference, s)
           | Some k \<Rightarrow>
               (case h of
                  NilHandler \<Rightarrow> Inl (NilDereference, s)
                | Impl f \<Rightarrow> run (f s) k))"

definition voidMiddleware :: "'s middleware" where
  "voidMiddleware =
     Middleware (HandlerFunc (Some (\<lambda>s. Return s))) (Some (Middleware NilHandler None))"

text \<open>
  \<open>build\<close>: the three branches of the source are the three equations (\<open>len = 0\<close>,
  \<open>len = 1\<close>, \<open>len > 1\<close>).
\<close>

fun build :: "'s Handler list \<Rightarrow> 's middleware" where
  "build [] = voidMiddleware"
| "build [h] = Middleware h (Some voidMiddleware)"
| "build (h # h' # hs) = Middleware h (Some (build (h' # hs)))"

section \<open>Observing a dispatch\<close>

text \<open>
  The same execution, with a log of what happened: \<open>Invoke d\<close> when the node at depth
  \<open>d\<close> of the chain runs, that is when the chain makes the call of the handler at
  depth \<open>d\<close> (a call that panics when that handler, or the node's \<open>next\<close>, is nil);
  \<open>Yield d\<close> when that handler calls the continuation it was passed. Depth \<open>d\<close> of
  \<open>build hs\<close> holds \<open>hs ! d\<close>, depth \<open>length hs\<close> the sentinel, and depth
  \<open>length hs + 1\<close> the zero node behind it. Forgetting the log gives
  \<open>middleware_ServeHTTP\<close> back (lemma \<open>serveT_erase\<close>).
\<close>

datatype event = Invoke nat | Yield nat

primrec runT ::
  "'s beh \<Rightarrow> nat \<Rightarrow> ('s \<Rightarrow> 's outcome \<times> event list) \<Rightarrow> 's outcome \<times> event list" where
  "runT (Return s) d k = (Inr s, [])"
| "runT (Raise e s) d k = (Inl (e, s), [])"
| "runT (CallNext s c) d k =
     (let (r, t1) = k s; (r', t2) = runT (c r) d k in (r', Yield d # t1 @ t2))"

primrec serveT :: "'s middleware \<Rightarrow> nat \<Rightarrow> 's \<Rightarrow> 's outcome \<times> event list" where
  "serveT (Middleware h n) =
     (\<lambda>d s. case map_option serveT n of
               None \<Rightarrow> (Inl (NilDereference, s), [Invoke d])
             | Some k \<Rightarrow>
                 (case h of
                    NilHandler \<Rightarrow> (Inl (NilDereference, s), [Invoke d])
                  | Impl f \<Rightarrow>
                      (let (r, t) = runT (f s) d (k (Suc d)) in (r, Invoke d # t))))"

definition dispatch :: "'s Handler list \<Rightarrow> 's \<Rightarrow> 's outcome" where
  "dispatch hs s = middleware_ServeHTTP (build hs) s"

definition trace :: "'s Handler list \<Rightarrow> 's \<Rightarrow> event list" where
  "trace hs s = snd (serveT (build hs) 0 s)"

fun invoked :: "event list \<Rightarrow> nat list" where
  "invoked [] = []"
| "invoked (Invoke d # t) = d # invoked t"
| "invoked (Yield d # t) = invoked t"

fun node_at :: "'s middleware \<Rightarrow> nat \<Rightarrow> 's middleware option" where
  "node_at m 0 = Some m"
| "node_at (Middleware h None) (Suc d) = None"
| "node_at (Middleware h (Some m)) (Suc d) = node_at m d"

text \<open>How often a behaviour calls the continuation.\<close>

fun never_yields :: "'s beh \<Rightarrow> bool" where
  "never_yields (CallNext s c) = False"
| "never_yields b = True"

fun yields :: "'s beh \<Rightarrow> bool" where
  "yields (CallNext s c) = True"
| "yields b = False"

fun yields_once :: "'s beh \<Rightarrow> bool" where
  "yields_once (CallNext s c) = (\<forall>r. never_yields (c r))"
| "yields_once b = False"

fun yields_at_most_once :: "'s beh \<Rightarrow> bool" where
  "yields_at_most_once (CallNext s c) = (\<forall>r. never_yields (c r))"
| "yields_at_most_once b = True"

text \<open>The same, for a handler in whatever state it is invoked.\<close>

fun invokes_next :: "'s Handler \<Rightarrow> bool" where
  "invokes_next NilHandler = False"
| "invokes_next (Impl f) = (\<forall>s. yields (f s))"

fun invokes_next_once :: "'s Handler \<Rightarrow> bool" where
  "invokes_next_once NilHandler = False"
| "invokes_next_once (Impl f) = (\<forall>s. yields_once (f s))"

fun invokes_next_at_most_once :: "'s Handler \<Rightarrow> bool" where
  "invokes_next_at_most_once NilHandler = True"
| "invokes_next_at_most_once (Impl f) = (\<forall>s. yields_at_most_once (f s))"

section \<open>Adapters for plain handlers\<close>

text \<open>
  A plain handler (\<open>http.Handler\<close>, \<open>http.HandlerFunc\<close>) sees no continuation: it
  returns or panics. Both Go types have a nil value (\<open>None\<close>), and calling through it
  panics.
\<close>

type_synonym 's plain = "('s \<Rightarrow> 's outcome) option"

definition resume :: "'s outcome \<Rightarrow> 's beh" where
  "resume r = (case r of Inl (e, s) \<Rightarrow> Raise e s | Inr s \<Rightarrow> Return s)"

definition call_plain :: "'s plain \<Rightarrow> 's \<Rightarrow> 's outcome" where
  "call_plain p s = (case p of None \<Rightarrow> Inl (NilDereference, s) | Some g \<Rightarrow> g s)"

text \<open>\<open>handler.ServeHTTP(rw, r); next(rw, r)\<close>, with no recover around either call.\<close>

definition Wrap :: "'s plain \<Rightarrow> 's Handler" where
  "Wrap handler' =
     HandlerFunc (Some (\<lambda>s. case call_plain handler' s of
                               Inl (e, s') \<Rightarrow> Raise e s'
                             | Inr s' \<Rightarrow> CallNext s' resume))"

definition WrapFunc :: "'s plain \<Rightarrow> 's Handler" where
  "WrapFunc handlerFunc =
     HandlerFunc (Some (\<lambda>s. case call_plain handlerFunc s of
                               Inl (e, s') \<Rightarrow> Raise e s'
                             | Inr s' \<Rightarrow> CallNext s' resume))"

section \<open>Slices of handlers\<close>

text \<open>
  A Go slice is a window (\<open>off\<close>, \<open>len\<close>, \<open>cap\<close>) on a backing array; two slices on
  one array share its cells. The store is the list of the backing arrays allocated so
  far, \<open>arr\<close> the index of the slice's array. The nil slice has \<open>len = cap = 0\<close>.
\<close>

record slice =
  arr :: nat
  off :: nat
  len :: nat
  cap :: nat

type_synonym 's store = "'s Handler list list"

definition nil_slice :: slice where
  "nil_slice = \<lparr>arr = 0, off = 0, len = 0, cap = 0\<rparr>"

definition elems :: "'s store \<Rightarrow> slice \<Rightarrow> 's Handler list" where
  "elems H sl = take (len sl) (drop (off sl) (H ! arr sl))"

definition wf_slice :: "'s store \<Rightarrow> slice \<Rightarrow> bool" where
  "wf_slice H sl \<longleftrightarrow>
     len sl \<le> cap sl \<and>
     (0 < cap sl \<longrightarrow> arr sl < length H \<and> off sl + cap sl \<le> length (H ! arr sl))"

definition store_at :: "'a list \<Rightarrow> nat \<Rightarrow> 'a list \<Rightarrow> 'a list" where
  "store_at a i xs = take i a @ xs @ drop (i + length xs) a"

text \<open>
  The built-in \<open>append(sl, xs...)\<close>. When the capacity suffices the elements are
  written into the backing array behind the slice's last element and the array is
  shared with the result; otherwise a new array is allocated. How much larger than
  needed the new array is, is the run-time system's choice: \<open>g\<close> maps the old capacity
  and the needed length to the capacity it would like.
\<close>

definition append_slice ::
  "(nat \<Rightarrow> nat \<Rightarrow> nat) \<Rightarrow> 's store \<Rightarrow> slice \<Rightarrow> 's Handler list \<Rightarrow> 's store \<times> slice" where
  "append_slice g H sl xs =
     (let n = len sl + length xs in
      if n \<le> cap sl then
        (H[arr sl := store_at (H ! arr sl) (off sl + len sl) xs], sl\<lparr>len := n\<rparr>)
      else
        (let c = max n (g (cap sl) n) in
         (H @ [elems H sl @ xs @ replicate (c - n) NilHandler],
          \<lparr>arr = length H, off = 0, len = n, cap = c\<rparr>)))"

section \<open>The stack\<close>

record 's Kudret =
  middleware :: "'s middleware"
  handlers :: slice

text \<open>\<open>New(handlers...)\<close> keeps the slice it is passed.\<close>

definition New :: "'s store \<Rightarrow> slice \<Rightarrow> 's Kudret" where
  "New H hs = \<lparr>middleware = build (elems H hs), handlers = hs\<rparr>"

text \<open>\<open>With\<close> appends to the receiver's slice and hands the result to \<open>New\<close>.\<close>

definition With ::
  "(nat \<Rightarrow> nat \<Rightarrow> nat) \<Rightarrow> 's store \<Rightarrow> 's Kudret \<Rightarrow> 's Handler list \<Rightarrow> 's store \<times> 's Kudret" where
  "With g H k hs = (let (H', sl) = append_slice g H (handlers k) hs in (H', New H' sl))"

definition Kudret_ServeHTTP :: "'s Kudret \<Rightarrow> 's \<Rightarrow> 's outcome" where
  "Kudret_ServeHTTP k s = middleware_ServeHTTP (middleware k) s"

text \<open>
  \<open>Use\<close> updates the stack behind the pointer \<open>k\<close>: the result is the panic, if any,
  the store and the stack as they are when the call ends.
\<close>

definition Use ::
  "(nat \<Rightarrow> nat \<Rightarrow> nat) \<Rightarrow> 's store \<Rightarrow> 's Kudret \<Rightarrow> 's Handler
     \<Rightarrow> error option \<times> 's store \<times> 's Kudret" where
  "Use g H k h =
     (if h = NilHandler then (Some HandlerCannotBeNil, H, k)
      else
        (let (H', sl) = append_slice g H (handlers k) [h];
             k1 = k\<lparr>handlers := sl\<rparr>;
             k2 = k1\<lparr>middleware := build (elems H' (handlers k1))\<rparr>
         in (None, H', k2)))"

definition UseFunc ::
  "(nat \<Rightarrow> nat \<Rightarrow> nat) \<Rightarrow> 's store \<Rightarrow> 's Kudret \<Rightarrow> ('s \<Rightarrow> 's beh) option
     \<Rightarrow> error option \<times> 's store \<times> 's Kudret" where
  "UseFunc g H k handlerFunc = Use g H k (HandlerFunc handlerFunc)"

definition UseHandler ::
  "(nat \<Rightarrow> nat \<Rightarrow> nat) \<Rightarrow> 's store \<Rightarrow> 's Kudret \<Rightarrow> 's plain
     \<Rightarrow> error option \<times> 's store \<times> 's Kudret" where
  "UseHandler g H k h = Use g H k (Wrap h)"

definition UseHandlerFunc ::
  "(nat \<Rightarrow> nat \<Rightarrow> nat) \<Rightarrow> 's store \<Rightarrow> 's Kudret \<Rightarrow> 's plain
     \<Rightarrow> error option \<times> 's store \<times> 's Kudret" where
  "UseHandlerFunc g H k handlerFunc = Use g H k (WrapFunc handlerFunc)"

definition Handlers :: "'s store \<Rightarrow> 's Kudret \<Rightarrow> 's Handler list" where
  "Handlers H k = elems H (handlers k)"

section \<open>The listen address\<close>

definition DefaultAddress :: string where
  "DefaultAddress = '':8080''"

text \<open>\<open>os.Getenv\<close> returns the empty string for a variable that is not set.\<close>

definition Getenv :: "(string \<rightharpoonup> string) \<Rightarrow> string \<Rightarrow> string" where
  "Getenv env key = (case env key of None \<Rightarrow> [] | Some v \<Rightarrow> v)"

definition detectAddress :: "(string \<rightharpoonup> string) \<Rightarrow> string list \<Rightarrow> string" where
  "detectAddress env addr =
     (if length addr > 0 then hd addr
      else (let port = Getenv env ''PORT'' in
            if port \<noteq> [] then '':'' @ port else DefaultAddress))"

section \<open>Shape of a trace\<close>

fun idx :: "event \<Rightarrow> nat" where
  "idx (Invoke d) = d"
| "idx (Yield d) = d"

text \<open>
  A set of events is closed from depth \<open>d\<close> when nothing in it lies above \<open>d\<close>, a node
  below \<open>d\<close> runs only because the handler before it called its continuation, and only
  a handler that was invoked calls its continuation.
\<close>

definition closed :: "nat \<Rightarrow> event set \<Rightarrow> bool" where
  "closed d T \<longleftrightarrow>
     (\<forall>e\<in>T. d \<le> idx e) \<and>
     (\<forall>j. Invoke (Suc j) \<in> T \<longrightarrow> d \<le> j \<longrightarrow> Yield j \<in> T) \<and>
     (\<forall>j. Yield j \<in> T \<longrightarrow> Invoke j \<in> T)"



section \<open>Example handlers and stores\<close>

text \<open>
  The state of the examples is the list of the response headers written so far. The
  handler \<open>continue_after x\<close> writes \<open>x\<close> and calls the continuation once,
  \<open>stop_after x\<close> writes \<open>x\<close> and returns, \<open>continue_if_fresh x\<close> does the first when no
  header is written yet and returns otherwise, \<open>call_twice\<close> calls the continuation two
  times. \<open>plain_write\<close> and \<open>plain_panic\<close> are plain handlers.
\<close>

type_synonym headers = "string list"

definition continue_after :: "string \<Rightarrow> headers Handler" where
  "continue_after x = Impl (\<lambda>s. CallNext (s @ [x]) resume)"

definition stop_after :: "string \<Rightarrow> headers Handler" where
  "stop_after x = Impl (\<lambda>s. Return (s @ [x]))"


definition call_twice :: "headers Handler" where
  "call_twice = Impl (\<lambda>s. CallNext s (\<lambda>r. CallNext (case r of Inl (e, s') \<Rightarrow> s' | Inr s' \<Rightarrow> s') resume))"



text \<open>
  A store with one backing array of one free cell and the empty slice on it, as
  \<open>make([]Handler, 0, 1)\<close> gives; and the growth of the standard run-time system on
  small slices, which doubles the capacity.
\<close>

definition one_spare :: "headers store" where
  "one_spare = [[NilHandler]]"

definition spare_slice :: slice where
  "spare_slice = \<lparr>arr = 0, off = 0, len = 0, cap = 1\<rparr>"

definition doubling :: "nat \<Rightarrow> nat \<Rightarrow> nat" where
  "doubling c n = 2 * c"

section \<open>Basic facts\<close>

lemma build_Cons: "build (h # hs) = Middleware h (Some (build hs))"
  by (cases hs) simp_all

lemma runT_erase: "fst (runT b d k) = run b (\<lambda>s. fst (k s))"
  by (induction b) (simp_all add: split_def Let_def)

text \<open>The log changes nothing: forgetting it gives the execution of the source.\<close>

lemma serveT_erase: "fst (serveT m d s) = middleware_ServeHTTP m s"
proof (induction m arbitrary: d s)
  case (Middleware h n)
  show ?case
  proof (cases n)
    case None
    then show ?thesis by simp
  next
    case (Some m')
    have "\<And>d s. fst (serveT m' d s) = middleware_ServeHTTP m' s"
      using Middleware Some by simp
    then have "(\<lambda>s. fst (serveT m' (Suc d) s)) = middleware_ServeHTTP m'" by auto
    then show ?thesis using Some
      by (cases h) (simp_all add: split_def runT_erase)
  qed
qed

lemma serveT_void: "serveT voidMiddleware d s = (Inr s, [Invoke d])"
  by (simp add: voidMiddleware_def)

text \<open>Running the zero node behind the sentinel would panic.\<close>

lemma serve_zero_node:
  "middleware_ServeHTTP (Middleware NilHandler None) s = Inl (NilDereference, s)"
  by simp

lemma runT_closed:
  assumes "\<And>s. closed (Suc d) (set (snd (k s)))"
  shows "closed d (insert (Invoke d) (set (snd (runT b d k))))"
proof (induction b)
  case (Return s)
  show ?case by (simp add: closed_def)
next
  case (Raise e s)
  show ?case by (simp add: closed_def)
next
  case (CallNext s c)
  obtain r t1 where k: "k s = (r, t1)" by (cases "k s")
  obtain r' t2 where r: "runT (c r) d k = (r', t2)" by (cases "runT (c r) d k")
  have 1: "closed (Suc d) (set t1)" using assms[of s] k by simp
  have 2: "closed d (insert (Invoke d) (set t2))" using CallNext.IH[of "c r"] r by simp
  have "closed d (insert (Invoke d) (insert (Yield d) (set t1 \<union> set t2)))"
    using 1 2 unfolding closed_def
    by (auto simp: Suc_le_eq le_Suc_eq)
  then show ?case using k r by simp
qed

lemma serveT_closed: "closed d (set (snd (serveT m d s)))"
proof (induction m arbitrary: d s)
  case (Middleware h n)
  show ?case
  proof (cases n)
    case None
    then show ?thesis by (simp add: closed_def)
  next
    case (Some m')
    have ih: "\<And>s. closed (Suc d) (set (snd (serveT m' (Suc d) s)))"
      using Middleware Some by simp
    show ?thesis
    proof (cases h)
      case NilHandler
      then show ?thesis using Some by (simp add: closed_def)
    next
      case (Impl f)
      show ?thesis using runT_closed[of d "serveT m' (Suc d)" "f s", OF ih] Some Impl
        by (simp add: split_def Let_def)
    qed
  qed
qed

lemma closed_cut:
  assumes "closed 0 T" "Yield i \<notin> T"
  shows "i < j \<Longrightarrow> Invoke j \<notin> T \<and> Yield j \<notin> T"
proof (induction j)
  case 0
  then show ?case by simp
next
  case (Suc j)
  have "Invoke (Suc j) \<notin> T"
  proof
    assume "Invoke (Suc j) \<in> T"
    then have y: "Yield j \<in> T" using assms(1) by (simp add: closed_def)
    then have "i \<noteq> j" using assms(2) by auto
    then have "i < j" using Suc.prems by simp
    then show False using Suc.IH y by simp
  qed
  then show ?case using assms(1) by (auto simp: closed_def)
qed

section \<open>Traces of built chains\<close>

lemma invoked_append: "invoked (t1 @ t2) = invoked t1 @ invoked t2"
  by (induction t1 rule: invoked.induct) simp_all

lemma invoked_set: "x \<in> set (invoked t) \<longleftrightarrow> Invoke x \<in> set t"
  by (induction t rule: invoked.induct) auto

lemma runT_never: "never_yields b \<Longrightarrow> snd (runT b d k) = []"
  by (cases b) simp_all

lemma runT_once: "yields_once b \<Longrightarrow> \<exists>s'. snd (runT b d k) = Yield d # snd (k s')"
  by (cases b) (auto simp: split_def Let_def runT_never)

lemma runT_at_most_once:
  "yields_at_most_once b \<Longrightarrow> snd (runT b d k) = [] \<or> (\<exists>s'. snd (runT b d k) = Yield d # snd (k s'))"
  by (cases b) (auto simp: split_def Let_def runT_never)

lemma runT_yields: "yields b \<Longrightarrow> \<exists>s' t. snd (runT b d k) = Yield d # snd (k s') @ t"
  by (cases b) (auto simp: split_def Let_def)

lemma serveT_Impl:
  "snd (serveT (Middleware (Impl f) (Some m)) d s) = Invoke d # snd (runT (f s) d (serveT m (Suc d)))"
  by (simp add: split_def Let_def)

lemma serveT_Nil: "snd (serveT (Middleware NilHandler n) d s) = [Invoke d]"
  by (cases n) simp_all

lemma runT_ge:
  assumes "\<And>s. \<forall>x\<in>set (invoked (snd (k s))). Suc d \<le> x"
  shows "\<forall>x\<in>set (invoked (snd (runT b d k))). Suc d \<le> x"
proof (induction b)
  case (CallNext s c)
  obtain r t1 where k: "k s = (r, t1)" by (cases "k s")
  obtain r' t2 where r: "runT (c r) d k = (r', t2)" by (cases "runT (c r) d k")
  have 1: "\<forall>x\<in>set (invoked t1). Suc d \<le> x" using assms[of s] k by simp
  have 2: "\<forall>x\<in>set (invoked t2). Suc d \<le> x" using CallNext.IH[of "c r"] r by simp
  show ?case using 1 2 k r by (auto simp: invoked_append)
qed simp_all

lemma serveT_ge: "\<forall>x\<in>set (invoked (snd (serveT m d s))). d \<le> x"
proof (induction m arbitrary: d s)
  case (Middleware h n)
  show ?case
  proof (cases n)
    case None then show ?thesis by simp
  next
    case (Some m')
    have ih: "\<And>s. \<forall>x\<in>set (invoked (snd (serveT m' (Suc d) s))). Suc d \<le> x"
      using Middleware Some by simp
    show ?thesis
    proof (cases h)
      case NilHandler then show ?thesis using Some by simp
    next
      case (Impl f)
      show ?thesis using runT_ge[of "serveT m' (Suc d)" d "f s", OF ih] Some Impl
        by (auto simp: split_def Let_def)
    qed
  qed
qed

lemma serveT_last:
  "filter (\<lambda>x. x < Suc d) (invoked (snd (serveT (Middleware h (Some m)) d s))) = [d]"
proof (cases h)
  case NilHandler then show ?thesis by simp
next
  case (Impl f)
  have "\<forall>x\<in>set (invoked (snd (runT (f s) d (serveT m (Suc d))))). Suc d \<le> x"
    by (rule runT_ge) (rule serveT_ge)
  then have "filter (\<lambda>x. x < Suc d) (invoked (snd (runT (f s) d (serveT m (Suc d))))) = []"
    by (auto simp: filter_empty_conv)
  then show ?thesis using Impl by (simp add: split_def Let_def)
qed

lemma build_once:
  assumes "hs \<noteq> []" "\<forall>i. Suc i < length hs \<longrightarrow> invokes_next_once (hs ! i)"
  shows "filter (\<lambda>x. x < d + length hs) (invoked (snd (serveT (build hs) d s))) = [d..<d + length hs]"
  using assms
proof (induction hs arbitrary: d s)
  case Nil then show ?case by simp
next
  case (Cons h rest)
  show ?case
  proof (cases rest)
    case Nil
    then show ?thesis using serveT_last[of d h voidMiddleware s] by (simp add: )
  next
    case (Cons h' rest')
    have ne: "rest \<noteq> []" using Cons by simp
    have h: "invokes_next_once h" using Cons.prems(2) Cons by auto
    then obtain f where f: "h = Impl f" "\<And>s. yields_once (f s)" by (cases h) auto
    have rest: "\<forall>i. Suc i < length rest \<longrightarrow> invokes_next_once (rest ! i)"
      using Cons.prems(2) by auto
    have ih: "\<And>s. filter (\<lambda>x. x < Suc d + length rest) (invoked (snd (serveT (build rest) (Suc d) s))) = [Suc d..<Suc d + length rest]"
      using Cons.IH[OF ne rest, of "Suc d"] .
    obtain s' where s': "snd (runT (f s) d (serveT (build rest) (Suc d))) = Yield d # snd (serveT (build rest) (Suc d) s')"
      using runT_once[OF f(2)] by blast
    have "invoked (snd (serveT (build (h # rest)) d s)) = d # invoked (snd (serveT (build rest) (Suc d) s'))"
      using f(1) s' by (simp add: build_Cons split_def Let_def)
    moreover have "[d..<d + length (h # rest)] = d # [Suc d..<Suc d + length rest]"
      using upt_conv_Cons[of d "d + length (h # rest)"] by simp
    ultimately show ?thesis using ih[of s'] by simp
  qed
qed

lemma build_count:
  assumes "\<forall>h\<in>set hs. invokes_next_at_most_once h"
  shows "length (invoked (snd (serveT (build hs) d s))) \<le> length hs + 1"
  using assms
proof (induction hs arbitrary: d s)
  case Nil then show ?case by (simp add: serveT_void)
next
  case (Cons h rest)
  show ?case
  proof (cases h)
    case NilHandler then show ?thesis by (simp add: build_Cons)
  next
    case (Impl f)
    then have "yields_at_most_once (f s)" using Cons.prems by simp
    then consider "snd (runT (f s) d (serveT (build rest) (Suc d))) = []"
      | s' where "snd (runT (f s) d (serveT (build rest) (Suc d))) = Yield d # snd (serveT (build rest) (Suc d) s')"
      using runT_at_most_once by blast
    then show ?thesis
    proof cases
      case 1 then show ?thesis using Impl by (simp add: build_Cons split_def Let_def)
    next
      case 2
      have "length (invoked (snd (serveT (build rest) (Suc d) s'))) \<le> length rest + 1"
        using Cons.IH Cons.prems by simp
      then show ?thesis using Impl 2 by (simp add: build_Cons split_def Let_def)
    qed
  qed
qed


lemma node_at_build_sentinel: "node_at (build hs) (length hs) = Some voidMiddleware"
  by (induction hs) (simp_all add: build_Cons)

lemma node_at_build_None: "node_at (build hs) (Suc (Suc (length hs))) = None"
  by (induction hs) (simp_all add: build_Cons voidMiddleware_def)







lemma build_all_invoked:
  assumes "\<forall>i. Suc i < length hs \<longrightarrow> invokes_next (hs ! i)"
  shows "i < length hs \<Longrightarrow> Invoke (d + i) \<in> set (snd (serveT (build hs) d s))"
  using assms
proof (induction hs arbitrary: d s i)
  case Nil then show ?case by simp
next
  case (Cons h rest)
  show ?case
  proof (cases i)
    case 0
    then show ?thesis using serveT_closed[of d "build (h # rest)" s] 
      by (cases h) (simp_all add: build_Cons split_def Let_def)
  next
    case (Suc i')
    then have i': "i' < length rest" using Cons.prems(1) by simp
    then have "invokes_next h" using Cons.prems(2) by (cases rest) auto
    then obtain f where f: "h = Impl f" "\<And>s. yields (f s)" by (cases h) auto
    have rest: "\<forall>i. Suc i < length rest \<longrightarrow> invokes_next (rest ! i)"
      using Cons.prems(2) by auto
    obtain s' t where s': "snd (runT (f s) d (serveT (build rest) (Suc d))) = Yield d # snd (serveT (build rest) (Suc d) s') @ t"
      using runT_yields[OF f(2)] by blast
    have "Invoke (Suc d + i') \<in> set (snd (serveT (build rest) (Suc d) s'))"
      using Cons.IH[OF i' rest] .
    then show ?thesis using f(1) s' Suc by (simp add: build_Cons split_def Let_def)
  qed
qed

lemma runT_le:
  assumes "\<And>s. \<forall>x\<in>set (invoked (snd (k s))). x \<le> n"
  shows "\<forall>x\<in>set (invoked (snd (runT b d k))). x \<le> n"
proof (induction b)
  case (CallNext s c)
  obtain r t1 where k: "k s = (r, t1)" by (cases "k s")
  obtain r' t2 where r: "runT (c r) d k = (r', t2)" by (cases "runT (c r) d k")
  have 1: "\<forall>x\<in>set (invoked t1). x \<le> n" using assms[of s] k by simp
  have 2: "\<forall>x\<in>set (invoked t2). x \<le> n" using CallNext.IH[of "c r"] r by simp
  show ?case using 1 2 k r by (auto simp: invoked_append)
qed simp_all

lemma build_le: "\<forall>x\<in>set (invoked (snd (serveT (build hs) d s))). x \<le> d + length hs"
proof (induction hs arbitrary: d s)
  case Nil
  show ?case by (simp add: serveT_void)
next
  case (Cons h rest)
  have ih: "\<And>s. \<forall>x\<in>set (invoked (snd (serveT (build rest) (Suc d) s))). x \<le> d + length (h # rest)"
    using Cons.IH[of "Suc d"] by simp
  show ?case
  proof (cases h)
    case NilHandler
    then show ?thesis by (simp add: build_Cons)
  next
    case (Impl f)
    show ?thesis using runT_le[of "serveT (build rest) (Suc d)" "d + length (h # rest)" "f s" d, OF ih] Impl
      by (auto simp: build_Cons split_def Let_def)
  qed
qed

lemma zero_node_never_run: "Invoke (Suc (length hs)) \<notin> set (trace hs s)"
proof
  assume "Invoke (Suc (length hs)) \<in> set (trace hs s)"
  then have "Suc (length hs) \<in> set (invoked (snd (serveT (build hs) 0 s)))"
    by (simp add: trace_def invoked_set)
  then show False using build_le[of hs 0 s] by fastforce
qed









section \<open>Appending to a slice\<close>

lemma store_at_length: "i + length xs \<le> length a \<Longrightarrow> length (store_at a i xs) = length a"
  by (simp add: store_at_def)

lemma store_at_window:
  assumes "b + m + length xs \<le> length a"
  shows "take (m + length xs) (drop b (store_at a (b + m) xs)) = take m (drop b a) @ xs"
proof -
  have 1: "length (take (b + m) a) = b + m" using assms by simp
  have "drop b (store_at a (b + m) xs) = take m (drop b a) @ xs @ drop (b + m + length xs) a"
    using assms by (simp add: store_at_def drop_take)
  moreover have "length (take m (drop b a)) = m" using assms by simp
  ultimately show ?thesis by simp
qed

lemma store_at_before:
  assumes "b + m + length xs \<le> length a"
  shows "take m (drop b (store_at a (b + m) xs)) = take m (drop b a)"
proof -
  have "drop b (store_at a (b + m) xs) = take m (drop b a) @ xs @ drop (b + m + length xs) a"
    using assms by (simp add: store_at_def drop_take)
  moreover have "length (take m (drop b a)) = m" using assms by simp
  ultimately show ?thesis by simp
qed

lemma elems_length: "wf_slice H sl \<Longrightarrow> length (elems H sl) = len sl"
  by (auto simp: wf_slice_def elems_def)

lemma append_slice_elems:
  assumes "wf_slice H sl" "append_slice g H sl xs = (H', sl')"
  shows "elems H' sl' = elems H sl @ xs"
proof (cases "len sl + length xs \<le> cap sl")
  case fits: True
  show ?thesis
  proof (cases "0 < cap sl")
    case True
    then have a: "arr sl < length H" "off sl + cap sl \<le> length (H ! arr sl)"
      using assms(1) by (auto simp: wf_slice_def)
    have "H' = H[arr sl := store_at (H ! arr sl) (off sl + len sl) xs]" "sl' = sl\<lparr>len := len sl + length xs\<rparr>"
      using assms(2) fits by (auto simp: append_slice_def Let_def)
    moreover have "off sl + len sl + length xs \<le> length (H ! arr sl)" using a fits by simp
    ultimately show ?thesis using a(1)
      by (simp add: elems_def store_at_window)
  next
    case False
    then show ?thesis using assms fits
      by (auto simp: append_slice_def Let_def elems_def)
  qed
next
  case False
  then show ?thesis using assms(2) elems_length[OF assms(1)]
    by (auto simp: append_slice_def Let_def elems_def)
qed

lemma append_slice_frame:
  assumes "wf_slice H sl" "append_slice g H sl xs = (H', sl')"
  shows "elems H' sl = elems H sl"
proof (cases "len sl + length xs \<le> cap sl")
  case fits: True
  show ?thesis
  proof (cases "0 < cap sl")
    case True
    then have a: "arr sl < length H" "off sl + cap sl \<le> length (H ! arr sl)"
      using assms(1) by (auto simp: wf_slice_def)
    have "H' = H[arr sl := store_at (H ! arr sl) (off sl + len sl) xs]"
      using assms(2) fits by (auto simp: append_slice_def Let_def)
    moreover have "off sl + len sl + length xs \<le> length (H ! arr sl)" using a fits by simp
    ultimately show ?thesis using a(1)
      by (simp add: elems_def store_at_before)
  next
    case False
    then show ?thesis using assms fits
      by (auto simp: append_slice_def Let_def elems_def)
  qed
next
  case False
  have "H' = H @ [elems H sl @ xs @ replicate (max (len sl + length xs) (g (cap sl) (len sl + length xs)) - (len sl + length xs)) NilHandler]"
    using assms(2) False by (auto simp: append_slice_def Let_def)
  then show ?thesis using assms(1)
    by (cases "0 < cap sl") (auto simp: elems_def wf_slice_def nth_append)
qed

lemma append_slice_wf:
  assumes "wf_slice H sl" "append_slice g H sl xs = (H', sl')"
  shows "wf_slice H' sl'"
proof (cases "len sl + length xs \<le> cap sl")
  case fits: True
  show ?thesis
  proof (cases "0 < cap sl")
    case True
    then have a: "arr sl < length H" "off sl + cap sl \<le> length (H ! arr sl)"
      using assms(1) by (auto simp: wf_slice_def)
    have "H' = H[arr sl := store_at (H ! arr sl) (off sl + len sl) xs]" "sl' = sl\<lparr>len := len sl + length xs\<rparr>"
      using assms(2) fits by (auto simp: append_slice_def Let_def)
    moreover have "off sl + len sl + length xs \<le> length (H ! arr sl)" using a fits by simp
    ultimately show ?thesis using a fits True
      by (simp add: wf_slice_def store_at_length)
  next
    case False
    then show ?thesis using assms fits
      by (auto simp: append_slice_def Let_def wf_slice_def)
  qed
next
  case False
  then show ?thesis using assms(2) elems_length[OF assms(1)]
    by (auto simp: append_slice_def Let_def wf_slice_def)
qed

section \<open>The example handlers\<close>

lemma never_resume: "never_yields (resume r)"
  by (simp add: resume_def split: sum.split prod.split)

lemma continue_once: "invokes_next_once (continue_after x)"
  by (simp add: continue_after_def never_resume)

lemma continue_yields: "invokes_next (continue_after x)"
  by (simp add: continue_after_def)

lemma continue_amo: "invokes_next_at_most_once (continue_after x)"
  by (simp add: continue_after_def never_resume)

lemma stop_amo: "invokes_next_at_most_once (stop_after x)"
  by (simp add: stop_after_def)

lemma trace_ABC: "trace [continue_after ''X:1'', continue_after ''Y:2'', stop_after ''Z:3''] [] =
   [Invoke 0, Yield 0, Invoke 1, Yield 1, Invoke 2]"
  by (simp add: trace_def continue_after_def stop_after_def resume_def)




lemma trace_twice: "trace [call_twice] [] = [Invoke 0, Yield 0, Invoke 1, Yield 0, Invoke 1]"
  by (simp add: trace_def call_twice_def resume_def voidMiddleware_def)

section \<open>Adapters\<close>




text \<open>
  An adapted handler is never the nil interface value, also when what it wraps is nil:
  \<open>UseFunc\<close>, \<open>UseHandler\<close> and \<open>UseHandlerFunc\<close> never panic.
\<close>

lemma adapters_not_nil:
  "HandlerFunc f \<noteq> NilHandler" "Wrap p \<noteq> NilHandler" "WrapFunc p \<noteq> NilHandler"
  by (cases f) (simp_all add: Wrap_def WrapFunc_def)

lemma Use_adapted_no_panic:
  "fst (UseFunc g H k f) = None" "fst (UseHandler g H k p) = None"
  "fst (UseHandlerFunc g H k p) = None"
  by (simp_all add: UseFunc_def UseHandler_def UseHandlerFunc_def Use_def adapters_not_nil
        split_def Let_def)


section \<open>Registration order\<close>



section \<open>Short-circuiting\<close>

text \<open>
  C2. In a dispatch through the chain built from any handler list, if the handler at
  position \<open>i\<close> does not call the continuation it was passed (the log has no
  \<open>Yield i\<close>), then no node at a position \<open>j > i\<close> runs its handler.
\<close>

theorem short_circuit:
  "Yield i \<notin> set (trace hs s) \<Longrightarrow> i < j \<Longrightarrow> Invoke j \<notin> set (trace hs s)"
  using closed_cut[OF serveT_closed, of i "build hs" s j] by (simp add: trace_def)

theorem short_circuit_witness:
  "Yield 1 \<notin> set (trace [continue_after ''X:1'', stop_after ''Y:2'', stop_after ''Z:3''] []) \<and>
   (1::nat) < 2 \<and>
   Invoke 2 \<notin> set (trace [continue_after ''X:1'', stop_after ''Y:2'', stop_after ''Z:3''] []) \<and>
   dispatch [continue_after ''X:1'', stop_after ''Y:2'', stop_after ''Z:3''] [] = Inr [''X:1'', ''Y:2'']"
proof -
  have t: "trace [continue_after ''X:1'', stop_after ''Y:2'', stop_after ''Z:3''] [] =
             [Invoke 0, Yield 0, Invoke 1]"
    by (simp add: trace_def continue_after_def stop_after_def resume_def)
  have y: "Yield 1 \<notin> set (trace [continue_after ''X:1'', stop_after ''Y:2'', stop_after ''Z:3''] [])"
    by (simp add: t)
  have d: "dispatch [continue_after ''X:1'', stop_after ''Y:2'', stop_after ''Z:3''] [] =
             Inr [''X:1'', ''Y:2'']"
    by (simp add: dispatch_def continue_after_def stop_after_def resume_def)
  show ?thesis using y d short_circuit[OF y, of 2] by simp
qed

section \<open>The empty chain\<close>

text \<open>
  C3. Dispatching through the chain built from the empty list returns normally with the
  state (response and request) as it was. The chain is the sentinel of
  \<open>voidMiddleware\<close>: its handler is the no-op, and it is the only one that runs
  (position 0 of that chain). The zero node behind the sentinel, whose handler is nil,
  is never run: not here (position 1), not when the sentinel is run at any depth, and
  not behind any built chain (position \<open>length hs + 1\<close>).
\<close>

theorem empty_chain:
  "dispatch [] s = Inr s \<and>
   trace [] s = [Invoke 0] \<and>
   Invoke 1 \<notin> set (trace [] s) \<and>
   build [] = (voidMiddleware :: 's middleware) \<and>
   handler (voidMiddleware :: 's middleware) = HandlerFunc (Some (\<lambda>s. Return s)) \<and>
   nxt (voidMiddleware :: 's middleware) = Some (Middleware NilHandler None) \<and>
   (\<forall>d. serveT voidMiddleware d s = (Inr s, [Invoke d])) \<and>
   (\<forall>hs. Invoke (Suc (length hs)) \<notin> set (trace hs s))"
  by (simp add: dispatch_def trace_def serveT_void zero_node_never_run[unfolded trace_def])
    (simp add: voidMiddleware_def)

section \<open>Use\<close>

text \<open>
  C4. \<open>Use\<close> panics exactly when the handler is the nil interface value. For a
  non-nil handler, on a stack whose slice is well formed, it returns normally, the
  stack's handler list is the old list with the handler at the end, and the chain is the
  one built from that whole list.
\<close>

theorem Use_nil_or_append:
  "(fst (Use g H k h) \<noteq> None \<longleftrightarrow> h = NilHandler) \<and>
   (h \<noteq> NilHandler \<longrightarrow> wf_slice H (handlers k) \<longrightarrow>
      (case Use g H k h of (e, H', k') \<Rightarrow>
         e = None \<and>
         Handlers H' k' = Handlers H k @ [h] \<and>
         middleware k' = build (Handlers H k @ [h]) \<and>
         wf_slice H' (handlers k')))"
proof (cases "h = NilHandler")
  case True
  then show ?thesis by (simp add: Use_def)
next
  case False
  obtain H' sl where a: "append_slice g H (handlers k) [h] = (H', sl)"
    by (cases "append_slice g H (handlers k) [h]")
  have u: "Use g H k h = (None, H', k\<lparr>handlers := sl, middleware := build (elems H' sl)\<rparr>)"
    using False a by (simp add: Use_def)
  show ?thesis using False u append_slice_elems[OF _ a] append_slice_wf[OF _ a]
    by (simp add: Handlers_def)
qed

theorem Use_nil_or_append_witness:
  "stop_after ''Y:2'' \<noteq> NilHandler \<and> wf_slice one_spare (handlers (New one_spare spare_slice)) \<and>
   (case Use doubling one_spare (New one_spare spare_slice) (stop_after ''Y:2'') of (e, H', k') \<Rightarrow>
      e = None \<and> Handlers H' k' = [stop_after ''Y:2''] \<and> middleware k' = build [stop_after ''Y:2''])
   \<and> fst (Use doubling one_spare (New one_spare spare_slice) NilHandler) \<noteq> None"
proof -
  have n: "stop_after ''Y:2'' \<noteq> NilHandler" by (simp add: stop_after_def)
  have w: "wf_slice one_spare (handlers (New one_spare spare_slice))"
    by (simp add: wf_slice_def New_def one_spare_def spare_slice_def)
  have e: "Handlers one_spare (New one_spare spare_slice) = []"
    by (simp add: Handlers_def elems_def New_def spare_slice_def)
  show ?thesis
    using n w e Use_nil_or_append[of doubling one_spare "New one_spare spare_slice" "stop_after ''Y:2''"]
          Use_nil_or_append[of doubling one_spare "New one_spare spare_slice" NilHandler]
    by (auto split: prod.splits)
qed

text \<open>
  C10. \<open>Use\<close> with the nil handler panics before it writes anything: the store and
  the stack (handler list and chain) are as they were.
\<close>

theorem Use_nil_atomic: "Use g H k NilHandler = (Some HandlerCannotBeNil, H, k)"
  by (simp add: Use_def)

section \<open>With\<close>

text \<open>
  What holds of \<open>With\<close> when it returns, on a stack \<open>k\<close> with a well-formed slice: the
  new stack's handler list is \<open>k\<close>'s followed by the additional handlers, its chain is
  built from that list, and \<open>k\<close>, to no field of which the call assigns, reads the same
  handler list in the new store.
\<close>

lemma With_at_return:
  assumes "wf_slice H (handlers k)" "With g H k hs = (H', k')"
  shows "Handlers H' k' = Handlers H k @ hs \<and>
         middleware k' = build (Handlers H k @ hs) \<and>
         Kudret_ServeHTTP k' s = dispatch (Handlers H k @ hs) s \<and>
         Handlers H' k = Handlers H k \<and>
         (middleware k = build (Handlers H k) \<longrightarrow> middleware k = build (Handlers H' k)) \<and>
         wf_slice H' (handlers k')"
proof -
  obtain sl where a: "append_slice g H (handlers k) hs = (H', sl)" and k': "k' = New H' sl"
    using assms(2) by (auto simp: With_def split: prod.splits)
  show ?thesis using k' append_slice_elems[OF assms(1) a] append_slice_frame[OF assms(1) a]
      append_slice_wf[OF assms(1) a]
    by (simp add: Handlers_def New_def Kudret_ServeHTTP_def dispatch_def)
qed

text \<open>
  C6. The claim: \<open>With\<close> returns a new, independently built stack and leaves \<open>k\<close>
  unchanged. The stack is not independent: \<open>With\<close> appends to \<open>k\<close>'s slice without
  copying it, so with spare capacity the derived stack's handler list lies in \<open>k\<close>'s
  backing array, and the next \<open>With\<close> on \<open>k\<close> writes its own handlers over it. The
  first derived stack \<open>d1\<close> then lists the handler given to the second, while its chain
  still runs its own. First for a stack made by \<open>New\<close> on a slice with one spare cell,
  under any growth policy; then for a stack made by \<open>New()\<close> and three calls of \<open>Use\<close>,
  when \<open>append\<close> doubles the capacity.
\<close>

theorem derived_shares_array:
  "(let k = New one_spare spare_slice;
        (H1, d1) = With g one_spare k [continue_after ''X:1''];
        (H2, d2) = With g H1 k [stop_after ''Y:2'']
    in Handlers H1 d1 = [continue_after ''X:1''] \<and>
       middleware d1 = build [continue_after ''X:1''] \<and>
       arr (handlers d1) = arr (handlers k) \<and>
       arr (handlers d2) = arr (handlers d1) \<and>
       Handlers H2 d2 = [stop_after ''Y:2''] \<and>
       Handlers H2 d1 = [stop_after ''Y:2''] \<and>
       Kudret_ServeHTTP d1 [] = Inr [''X:1''] \<and>
       dispatch (Handlers H2 d1) [] = Inr [''Y:2'']) \<and>
   (let k0 = New [] nil_slice;
        (e1, H1, k1) = Use doubling [] k0 (continue_after ''A'');
        (e2, H2, k2) = Use doubling H1 k1 (continue_after ''B'');
        (e3, H3, k3) = Use doubling H2 k2 (continue_after ''C'');
        (H4, d1) = With doubling H3 k3 [continue_after ''X:1''];
        (H5, d2) = With doubling H4 k3 [stop_after ''Y:2'']
    in len (handlers k3) = 3 \<and> cap (handlers k3) = 4 \<and>
       arr (handlers d1) = arr (handlers k3) \<and>
       arr (handlers d2) = arr (handlers d1) \<and>
       Handlers H4 d1 = [continue_after ''A'', continue_after ''B'', continue_after ''C'', continue_after ''X:1''] \<and>
       Handlers H5 d1 = [continue_after ''A'', continue_after ''B'', continue_after ''C'', stop_after ''Y:2''] \<and>
       Handlers H5 k3 = [continue_after ''A'', continue_after ''B'', continue_after ''C''] \<and>
       Kudret_ServeHTTP d1 [] = Inr [''A'', ''B'', ''C'', ''X:1''] \<and>
       dispatch (Handlers H5 d1) [] = Inr [''A'', ''B'', ''C'', ''Y:2''])"
  by (simp add: New_def With_def Use_def append_slice_def one_spare_def spare_slice_def
        nil_slice_def doubling_def
        elems_def store_at_def Handlers_def Kudret_ServeHTTP_def dispatch_def
        continue_after_def stop_after_def resume_def voidMiddleware_def)

section \<open>Chain and handler list in lockstep\<close>

text \<open>
  C5. The claim: for every stack reachable by the public operations, the stored chain is
  \<open>build\<close> of the stored handler list. It fails: \<open>With\<close> appends to the receiver's slice
  without copying it, so with spare capacity the derived stack \<open>d\<close> shares the backing
  array, and a later \<open>Use\<close> on the receiver overwrites the last element of \<open>d\<close>'s
  handler list while \<open>d\<close>'s chain stays as built. First for a stack made by \<open>New\<close> on a
  slice with one spare cell, under any growth policy; then for a stack made by
  \<open>New()\<close> and three calls of \<open>Use\<close>, when \<open>append\<close> doubles the capacity.
\<close>

theorem stale_chain:
  "(let k = New one_spare spare_slice;
        (H1, d) = With g one_spare k [continue_after ''X:1''];
        (e, H2, k') = Use g H1 k (stop_after ''Y:2'')
    in e = None \<and>
       Handlers H1 d = [continue_after ''X:1''] \<and>
       middleware d = build [continue_after ''X:1''] \<and>
       Handlers H2 d = [stop_after ''Y:2''] \<and>
       Kudret_ServeHTTP d [] = Inr [''X:1''] \<and>
       dispatch (Handlers H2 d) [] = Inr [''Y:2''] \<and>
       middleware d \<noteq> build (Handlers H2 d)) \<and>
   (let k0 = New [] nil_slice;
        (e1, H1, k1) = Use doubling [] k0 (continue_after ''A'');
        (e2, H2, k2) = Use doubling H1 k1 (continue_after ''B'');
        (e3, H3, k3) = Use doubling H2 k2 (continue_after ''C'');
        (H4, d) = With doubling H3 k3 [continue_after ''X:1''];
        (e5, H5, k5) = Use doubling H4 k3 (stop_after ''Y:2'')
    in e1 = None \<and> e2 = None \<and> e3 = None \<and> e5 = None \<and>
       len (handlers k3) = 3 \<and> cap (handlers k3) = 4 \<and>
       arr (handlers d) = arr (handlers k3) \<and>
       Handlers H4 d = [continue_after ''A'', continue_after ''B'', continue_after ''C'', continue_after ''X:1''] \<and>
       middleware d = build (Handlers H4 d) \<and>
       Handlers H5 d = [continue_after ''A'', continue_after ''B'', continue_after ''C'', stop_after ''Y:2''] \<and>
       Kudret_ServeHTTP d [] = Inr [''A'', ''B'', ''C'', ''X:1''] \<and>
       dispatch (Handlers H5 d) [] = Inr [''A'', ''B'', ''C'', ''Y:2''])"
  by (simp add: New_def With_def Use_def append_slice_def one_spare_def spare_slice_def
        nil_slice_def doubling_def
        elems_def store_at_def Handlers_def Kudret_ServeHTTP_def dispatch_def
        continue_after_def stop_after_def resume_def voidMiddleware_def fun_eq_iff)

section \<open>Adapted plain handlers\<close>




section \<open>Address resolution\<close>

text \<open>
  C8. With at least one explicit address \<open>detectAddress\<close> returns the first, whatever
  the environment; with none and \<open>PORT\<close> set to a non-empty \<open>p\<close> it returns \<open>":" + p\<close>;
  with none and \<open>PORT\<close> not set it returns \<open>":8080"\<close>.
\<close>

theorem detectAddress_precedence:
  "(addr \<noteq> [] \<longrightarrow> detectAddress env addr = hd addr) \<and>
   (env ''PORT'' = Some p \<and> p \<noteq> [] \<longrightarrow> detectAddress env [] = '':'' @ p) \<and>
   (env ''PORT'' = None \<longrightarrow> detectAddress env [] = '':8080'')"
  by (auto simp: detectAddress_def Getenv_def DefaultAddress_def)

theorem detectAddress_precedence_witness:
  "detectAddress [''PORT'' \<mapsto> ''9090''] ['':7000''] = '':7000'' \<and>
   detectAddress [''PORT'' \<mapsto> ''9090''] [] = '':9090'' \<and>
   detectAddress Map.empty [] = '':8080''"
  using detectAddress_precedence[of "['':7000'']" "[''PORT'' \<mapsto> ''9090'']" "''9090''"]
        detectAddress_precedence[of "[]" "Map.empty" "''9090''"]
  by simp

section \<open>Number of invocations\<close>

text \<open>
  C9. The claim: a dispatch makes at most \<open>length hs + 1\<close> handler invocations. It
  fails for a handler that calls its continuation two times: with it alone in the list
  the sentinel runs twice, three invocations in all; with two of them before a third
  handler, the three registered handlers are invoked seven times.
\<close>

theorem invocation_bound_counterexample:
  "invoked (trace [call_twice] []) = [0, 1, 1] \<and>
   \<not> length (invoked (trace [call_twice] [])) \<le> length [call_twice] + 1 \<and>
   invoked (trace [call_twice, call_twice, stop_after ''Z:3''] []) = [0, 1, 2, 2, 1, 2, 2] \<and>
   \<not> length (invoked (trace [call_twice, call_twice, stop_after ''Z:3''] []))
       \<le> length [call_twice, call_twice, stop_after ''Z:3''] + 1"
  by (simp add: trace_def call_twice_def stop_after_def resume_def voidMiddleware_def)

text \<open>
  C9, amended. A dispatch always ends (\<open>middleware_ServeHTTP\<close> is a total function
  on the chain, which has \<open>length hs + 2\<close> nodes and no cycle); when every handler calls
  its continuation at most once per invocation, it makes at most \<open>length hs + 1\<close>
  handler invocations.
\<close>

theorem invocation_bound:
  "(\<forall>h\<in>set hs. invokes_next_at_most_once h) \<Longrightarrow>
     length (invoked (trace hs s)) \<le> length hs + 1 \<and>
     fst (serveT (build hs) 0 s) = dispatch hs s \<and>
     node_at (build hs) (Suc (Suc (length hs))) = None"
  using build_count[of hs 0 s] node_at_build_None[of hs]
  by (simp add: trace_def dispatch_def serveT_erase)

theorem invocation_bound_witness:
  "invokes_next_at_most_once (continue_after ''X:1'') \<and>
   invokes_next_at_most_once (stop_after ''Y:2'') \<and>
   length (invoked (trace [continue_after ''X:1'', stop_after ''Y:2''] [])) \<le> 3 \<and>
   dispatch [continue_after ''X:1'', stop_after ''Y:2''] [] = Inr [''X:1'', ''Y:2'']"
proof -
  have h: "\<forall>h\<in>set [continue_after ''X:1'', stop_after ''Y:2'']. invokes_next_at_most_once h"
    by (simp add: continue_amo stop_amo)
  have "dispatch [continue_after ''X:1'', stop_after ''Y:2''] [] = Inr [''X:1'', ''Y:2'']"
    by (simp add: dispatch_def continue_after_def stop_after_def resume_def)
  then show ?thesis using h invocation_bound[OF h, of "[]"] by (simp add: continue_amo stop_amo)
qed

end
